theory Spec2Isabelle
  imports Main "HOL-Library.Char_ord" "HOL-Library.List_Lexorder" "HOL-Library.Multiset"
begin

section \<open>Strings\<close>

text \<open>
  A Python \<open>str\<close> is modelled as a \<open>string\<close>: a list of characters, each character a
  code point below 256 (the Latin-1 range, which \<open>str.lower\<close> and \<open>str.strip\<close> map
  into itself). The order on characters is the order of their code points
  (\<open>HOL-Library.Char_ord\<close>) and the order on strings is the lexicographic one
  (\<open>HOL-Library.List_Lexorder\<close>), as Python compares \<open>str\<close> values.
\<close>

definition isspace :: "char \<Rightarrow> bool" where
  \<comment> \<open>\<open>str.isspace\<close> on one character: TAB, LF, VT, FF, CR, FS, GS, RS, US, space,
      NEL (0x85) and the no-break space (0xA0).\<close>
  "isspace c =
     (let n = (of_char c :: nat)
      in (9 \<le> n \<and> n \<le> 13) \<or> (28 \<le> n \<and> n \<le> 32) \<or> n = 133 \<or> n = 160)"

definition strip :: "string \<Rightarrow> string" where
  \<comment> \<open>\<open>s.strip()\<close>: leading and trailing whitespace removed.\<close>
  "strip s = rev (dropWhile isspace (rev (dropWhile isspace s)))"

definition lower_char :: "char \<Rightarrow> char" where
  \<comment> \<open>\<open>str.lower\<close> on one character: A-Z and the Latin-1 capitals 0xC0-0xDE
      (the multiplication sign 0xD7 apart) move up by 32.\<close>
  "lower_char c =
     (let n = (of_char c :: nat)
      in if (65 \<le> n \<and> n \<le> 90) \<or> (192 \<le> n \<and> n \<le> 222 \<and> n \<noteq> 215)
         then char_of (n + 32) else c)"

definition lower :: "string \<Rightarrow> string" where
  "lower s = map lower_char s"

definition startswith :: "string \<Rightarrow> string \<Rightarrow> bool" where
  \<comment> \<open>\<open>s.startswith(p)\<close>\<close>
  "startswith s p = (take (length p) s = p)"

definition endswith :: "string \<Rightarrow> string \<Rightarrow> bool" where
  \<comment> \<open>\<open>s.endswith(p)\<close>\<close>
  "endswith s p = (take (length p) (rev s) = rev p)"

fun split_acc :: "char \<Rightarrow> string \<Rightarrow> string \<Rightarrow> string list" where
  \<comment> \<open>the scan of \<open>str.split(sep)\<close> for a one-character separator: \<open>acc\<close> holds the
      current fragment, reversed.\<close>
  "split_acc sep acc [] = [rev acc]"
| "split_acc sep acc (c # cs) =
     (if c = sep then rev acc # split_acc sep [] cs else split_acc sep (c # acc) cs)"

definition split :: "string \<Rightarrow> char \<Rightarrow> string list" where
  \<comment> \<open>\<open>s.split(sep)\<close>: one fragment more than there are separators.\<close>
  "split s sep = split_acc sep [] s"

fun join_with :: "char \<Rightarrow> string list \<Rightarrow> string" where
  \<comment> \<open>\<open>sep.join(fragments)\<close>, the inverse of \<open>split\<close>\<close>
  "join_with sep [] = []"
| "join_with sep [f] = f"
| "join_with sep (f # g # fs) = f @ sep # join_with sep (g # fs)"

section \<open>The statement splitter\<close>

text \<open>
  Lines 50 and 51 of \<open>execute_query\<close>:
  \<^verbatim>\<open>
  statements = query.split(';')
  statements = [stmt.strip() for stmt in statements if stmt.strip()]
  \<close>
  The comprehension filters on the stripped fragment first and strips the kept ones.
\<close>

definition statements :: "string \<Rightarrow> string list" where
  "statements query =
     map strip (filter (\<lambda>stmt. strip stmt \<noteq> []) (split query (CHR '';'')))"

text \<open>
  The splitter as the specification words it: split on \<open>;\<close>, trim every fragment,
  discard the fragments that are empty after trimming.
\<close>

definition spec_statements :: "string \<Rightarrow> string list" where
  "spec_statements text =
     filter (\<lambda>fragment. fragment \<noteq> []) (map strip (split text (CHR '';'')))"

definition is_select :: "string \<Rightarrow> bool" where
  \<comment> \<open>line 58: \<open>statement.lower().strip().startswith('select')\<close>\<close>
  "is_select statement = startswith (strip (lower statement)) ''select''"

section \<open>Paths and numbers\<close>

text \<open>
  \<open>os.path.join\<close> and \<open>os.path.basename\<close> as \<open>posixpath\<close> defines them for one
  component: a component that starts with \<open>/\<close> replaces the directory, an empty
  directory or one that ends with \<open>/\<close> takes no separator, and the base name is
  what follows the last \<open>/\<close>. \<open>str_nat\<close> is the decimal text that an f-string
  gives a non-negative \<open>int\<close>.
\<close>

definition path_join :: "string \<Rightarrow> string \<Rightarrow> string" where
  "path_join a b =
     (if startswith b ''/'' then b
      else if a = [] \<or> endswith a ''/'' then a @ b
      else a @ ''/'' @ b)"

definition basename :: "string \<Rightarrow> string" where
  "basename p = rev (takeWhile (\<lambda>c. c \<noteq> CHR ''/'') (rev p))"

definition digit :: "nat \<Rightarrow> char" where
  "digit d = char_of (48 + d)"

function str_nat :: "nat \<Rightarrow> string" where
  "str_nat n = (if n < 10 then [digit n] else str_nat (n div 10) @ [digit (n mod 10)])"
  by pat_completeness auto
termination
  by (relation "measure (\<lambda>n. n)") auto

declare str_nat.simps [simp del]

section \<open>The collaborators\<close>

text \<open>
  The file system, the database client and the logger are outside the source. Every call
  the source makes on them is an entry of a trace, in the order of execution: a \<open>Call\<close>
  with the exception it raised, if any, or a \<open>Log\<close> record with its level and message.
  An exception is an instance of Python's \<open>Exception\<close>, known by its text \<open>str(e)\<close>.

  The file system and the database client are a parameter of the model, a \<open>client\<close>:
  each operation takes the state of the outside world and returns its result, or the
  exception it raises, with the new state. So every operation may fail, at any call, in
  any state. \<open>listdir\<close> is \<open>os.listdir\<close>; \<open>open_read\<close> is \<open>open(path, 'r')\<close>
  followed by \<open>read()\<close> and the closing of the file; \<open>connect\<close>, \<open>cursor\<close>,
  \<open>execute\<close>, \<open>fetchall\<close> and \<open>commit\<close> are the calls on \<open>mysql.connector\<close>, the
  connection and the cursor; a fetched row is the text that \<open>f"{row}"\<close> gives it.
  \<open>cursor_exit\<close> and \<open>connection_exit\<close> are the \<open>__exit__\<close> of the two \<open>with\<close>
  blocks: they close the resource, and like every other operation they may raise. As the
  \<open>__exit__\<close> of \<open>mysql.connector\<close> does, they return nothing, so they suppress no
  exception of the block they end.
\<close>

datatype exn = Exn string

fun str :: "exn \<Rightarrow> string" where
  "str (Exn message) = message"

datatype level = INFO | WARNING | ERROR

record connection_params =
  host :: string
  user :: string
  password :: string
  database :: string
  raise_on_warnings :: bool

record runner =
  connection_params :: connection_params

datatype call =
    Listdir string
  | OpenRead string
  | Connect connection_params
  | Cursor
  | Execute string
  | Fetchall
  | Commit
  | CursorExit
  | ConnectionExit

datatype event = Call call "exn option" | Log level string

record 'w client =
  listdir :: "string \<Rightarrow> 'w \<Rightarrow> (exn + string list) \<times> 'w"
  open_read :: "string \<Rightarrow> 'w \<Rightarrow> (exn + string) \<times> 'w"
  connect :: "connection_params \<Rightarrow> 'w \<Rightarrow> (exn + unit) \<times> 'w"
  cursor :: "'w \<Rightarrow> (exn + unit) \<times> 'w"
  execute :: "string \<Rightarrow> 'w \<Rightarrow> (exn + unit) \<times> 'w"
  fetchall :: "'w \<Rightarrow> (exn + string list) \<times> 'w"
  commit :: "'w \<Rightarrow> (exn + unit) \<times> 'w"
  cursor_exit :: "'w \<Rightarrow> (exn + unit) \<times> 'w"
  connection_exit :: "'w \<Rightarrow> (exn + unit) \<times> 'w"

section \<open>The runner\<close>

text \<open>
  Every method of \<open>SQLQueryRunner\<close> becomes a function from the state of the world to
  its result, the trace of what it did, and the new state. A method that can raise
  returns a sum, the exception on the left.

  \<open>get_sql_files\<close>, lines 25 to 31. \<open>collect_sql\<close> is the loop over the listing, with
  \<open>sql_files\<close> the list built so far; \<open>sorted\<close> is \<open>sort\<close> on the lexicographic
  order of strings. An exception of \<open>os.listdir\<close> propagates.
\<close>

fun collect_sql :: "string \<Rightarrow> string list \<Rightarrow> string list \<Rightarrow> string list" where
  "collect_sql directory sql_files [] = sql_files"
| "collect_sql directory sql_files (file # files) =
     (if endswith file ''.sql''
      then collect_sql directory (sql_files @ [path_join directory file]) files
      else collect_sql directory sql_files files)"

definition get_sql_files ::
  "'w client \<Rightarrow> string \<Rightarrow> 'w \<Rightarrow> (exn + string list) \<times> event list \<times> 'w" where
  "get_sql_files env directory w =
     (case listdir env directory w of
        (Inl e, w1) \<Rightarrow> (Inl e, [Call (Listdir directory) (Some e)], w1)
      | (Inr names, w1) \<Rightarrow>
          (Inr (sort (collect_sql directory [] names)), [Call (Listdir directory) None], w1))"

text \<open>
  \<open>read_query_from_file\<close>, lines 33 to 40: the handler logs and re-raises.
\<close>

definition read_query_from_file ::
  "'w client \<Rightarrow> string \<Rightarrow> 'w \<Rightarrow> (exn + string) \<times> event list \<times> 'w" where
  "read_query_from_file env file_path w =
     (case open_read env file_path w of
        (Inr text, w1) \<Rightarrow> (Inr text, [Call (OpenRead file_path) None], w1)
      | (Inl e, w1) \<Rightarrow>
          (Inl e,
           [Call (OpenRead file_path) (Some e),
            Log ERROR (''Error reading file '' @ file_path @ '': '' @ str e)],
           w1))"

text \<open>
  \<open>execute_query\<close>, lines 42 to 68. \<open>run_statements\<close> is the loop of lines 53 to 61,
  \<open>log_results\<close> its inner loop over the fetched rows; \<open>cursor_block\<close> is the body of
  \<open>with conn.cursor() as cursor\<close>, \<open>connection_block\<close> the body of
  \<open>with mysql.connector.connect(...) as conn\<close> and \<open>try_block\<close> the body of \<open>try\<close>.
  A \<open>with\<close> block that is left, by \<open>return True\<close> or by an exception, runs the exit
  of its resource inside the \<open>try\<close>: \<open>leave_with\<close> is that step. When the exit raises,
  its exception replaces what the block was leaving with, the value of \<open>return True\<close> as
  well as an earlier exception; otherwise the block ends as its body did. Whatever
  exception leaves the \<open>try\<close> reaches \<open>except Exception\<close>, which logs it and returns
  \<open>False\<close>: \<open>execute_query\<close> itself raises nothing.
\<close>

definition log_results :: "string list \<Rightarrow> event list" where
  "log_results results = map (\<lambda>row. Log INFO (''Result: '' @ row)) results"

fun run_statements ::
  "'w client \<Rightarrow> string list \<Rightarrow> 'w \<Rightarrow> (exn + unit) \<times> event list \<times> 'w" where
  "run_statements env [] w = (Inr (), [], w)"
| "run_statements env (statement # rest) w =
     (if statement \<noteq> [] then
        (case execute env statement w of
           (Inl e, w1) \<Rightarrow> (Inl e, [Call (Execute statement) (Some e)], w1)
         | (Inr _, w1) \<Rightarrow>
             if is_select statement then
               (case fetchall env w1 of
                  (Inl e, w2) \<Rightarrow>
                    (Inl e, [Call (Execute statement) None, Call Fetchall (Some e)], w2)
                | (Inr results, w2) \<Rightarrow>
                    (case run_statements env rest w2 of
                       (r, evs, w3) \<Rightarrow>
                         (r,
                          [Call (Execute statement) None, Call Fetchall None]
                            @ log_results results @ evs,
                          w3)))
             else
               (case run_statements env rest w1 of
                  (r, evs, w3) \<Rightarrow> (r, Call (Execute statement) None # evs, w3)))
      else run_statements env rest w)"

definition cursor_block ::
  "'w client \<Rightarrow> string \<Rightarrow> string \<Rightarrow> 'w \<Rightarrow> (exn + bool) \<times> event list \<times> 'w" where
  "cursor_block env query file_name w =
     (case run_statements env (statements query) w of
        (Inl e, evs, w1) \<Rightarrow>
          (Inl e, Log INFO (''Executing query from '' @ file_name) # evs, w1)
      | (Inr _, evs, w1) \<Rightarrow>
          (case commit env w1 of
             (Inl e, w2) \<Rightarrow>
               (Inl e,
                Log INFO (''Executing query from '' @ file_name) # evs
                  @ [Call Commit (Some e)],
                w2)
           | (Inr _, w2) \<Rightarrow>
               (Inr True,
                Log INFO (''Executing query from '' @ file_name) # evs
                  @ [Call Commit None,
                     Log INFO (''Successfully executed query from '' @ file_name)],
                w2)))"

definition leave_with ::
  "call \<Rightarrow> ('w \<Rightarrow> (exn + unit) \<times> 'w) \<Rightarrow> (exn + 'a) \<times> event list \<times> 'w
     \<Rightarrow> (exn + 'a) \<times> event list \<times> 'w" where
  "leave_with exit_call exit body =
     (case body of
        (r, evs, w1) \<Rightarrow>
          (case exit w1 of
             (Inl e, w2) \<Rightarrow> (Inl e, evs @ [Call exit_call (Some e)], w2)
           | (Inr _, w2) \<Rightarrow> (r, evs @ [Call exit_call None], w2)))"

definition connection_block ::
  "'w client \<Rightarrow> string \<Rightarrow> string \<Rightarrow> 'w \<Rightarrow> (exn + bool) \<times> event list \<times> 'w" where
  "connection_block env query file_name w =
     (case cursor env w of
        (Inl e, w1) \<Rightarrow> (Inl e, [Call Cursor (Some e)], w1)
      | (Inr _, w1) \<Rightarrow>
          (case leave_with CursorExit (cursor_exit env)
                  (cursor_block env query file_name w1) of
             (r, evs, w2) \<Rightarrow> (r, Call Cursor None # evs, w2)))"

definition try_block ::
  "'w client \<Rightarrow> runner \<Rightarrow> string \<Rightarrow> string \<Rightarrow> 'w \<Rightarrow> (exn + bool) \<times> event list \<times> 'w" where
  "try_block env self query file_name w =
     (case connect env (connection_params self) w of
        (Inl e, w1) \<Rightarrow> (Inl e, [Call (Connect (connection_params self)) (Some e)], w1)
      | (Inr _, w1) \<Rightarrow>
          (case leave_with ConnectionExit (connection_exit env)
                  (connection_block env query file_name w1) of
             (r, evs, w2) \<Rightarrow> (r, Call (Connect (connection_params self)) None # evs, w2)))"

definition execute_query ::
  "'w client \<Rightarrow> runner \<Rightarrow> string \<Rightarrow> string \<Rightarrow> 'w \<Rightarrow> bool \<times> event list \<times> 'w" where
  "execute_query env self query file_name w =
     (case try_block env self query file_name w of
        (Inr success, evs, w1) \<Rightarrow> (success, evs, w1)
      | (Inl e, evs, w1) \<Rightarrow>
          (False,
           evs @ [Log ERROR (''Error executing query from '' @ file_name @ '': '' @ str e)],
           w1))"

text \<open>
  \<open>run_all_queries\<close>, lines 70 to 91. It ends in one of three ways: it returns, it leaves
  the process by \<open>sys.exit(1)\<close> (a \<open>SystemExit\<close>, which \<open>except Exception\<close> does not
  catch), or the exception of \<open>os.listdir\<close> propagates. \<open>main\<close> ends right after the
  call, so the exit status of the process is 0 after a return, the argument of
  \<open>sys.exit\<close>, and 1 after an uncaught exception. \<open>process_files\<close> is the loop of
  lines 80 to 91; the only exception its \<open>try\<close> can see is the one that
  \<open>read_query_from_file\<close> re-raises.
\<close>

datatype outcome = Returned | SysExit nat | Raised exn

definition exit_status :: "outcome \<Rightarrow> nat" where
  "exit_status r = (case r of Returned \<Rightarrow> 0 | SysExit n \<Rightarrow> n | Raised e \<Rightarrow> 1)"

fun process_files ::
  "'w client \<Rightarrow> runner \<Rightarrow> string list \<Rightarrow> 'w \<Rightarrow> outcome \<times> event list \<times> 'w" where
  "process_files env self [] w = (Returned, [], w)"
| "process_files env self (sql_file # rest) w =
     (case read_query_from_file env sql_file w of
        (Inl e, evs, w1) \<Rightarrow>
          (SysExit 1,
           evs @ [Log ERROR (''Fatal error processing '' @ sql_file @ '': '' @ str e)],
           w1)
      | (Inr query, evs, w1) \<Rightarrow>
          (case execute_query env self query (basename sql_file) w1 of
             (success, evs2, w2) \<Rightarrow>
               if \<not> success then
                 (SysExit 1,
                  evs @ evs2
                    @ [Log ERROR (''Stopping execution due to failure in '' @ sql_file)],
                  w2)
               else
                 (case process_files env self rest w2 of
                    (r, evs3, w3) \<Rightarrow> (r, evs @ evs2 @ evs3, w3))))"

definition run_all_queries ::
  "'w client \<Rightarrow> runner \<Rightarrow> string \<Rightarrow> 'w \<Rightarrow> outcome \<times> event list \<times> 'w" where
  "run_all_queries env self directory w =
     (case get_sql_files env directory w of
        (Inl e, evs, w1) \<Rightarrow> (Raised e, evs, w1)
      | (Inr sql_files, evs, w1) \<Rightarrow>
          if sql_files = [] then
            (Returned, evs @ [Log WARNING (''No SQL files found in '' @ directory)], w1)
          else
            (case process_files env self sql_files w1 of
               (r, evs2, w2) \<Rightarrow>
                 (r,
                  evs
                    @ [Log INFO
                         (''Found '' @ str_nat (length sql_files) @ '' SQL files to execute'')]
                    @ evs2,
                  w2)))"

section \<open>A scripted collaborator\<close>

text \<open>
  A concrete client, for running the model: the world is a \<open>script\<close> that gives the
  listing of the directory, the contents of the files that can be read, whether the
  server can be reached, the statements it rejects, the rows a fetch returns and whether
  a commit succeeds. \<open>main_params\<close> are the parameters of \<open>main\<close>, lines 95 to 101.
\<close>

record script =
  entries :: "string list"
  contents :: "(string \<times> string) list"
  reachable :: bool
  rejected :: "string list"
  rows :: "string list"
  commits :: bool

definition scripted :: "script client" where
  "scripted =
     \<lparr> listdir = (\<lambda>directory w. (Inr (entries w), w)),
       open_read = (\<lambda>file_path w.
         case map_of (contents w) file_path of
           None \<Rightarrow> (Inl (Exn ''No such file or directory''), w)
         | Some text \<Rightarrow> (Inr text, w)),
       connect = (\<lambda>params w.
         if reachable w then (Inr (), w) else (Inl (Exn ''Can't connect to MySQL server''), w)),
       cursor = (\<lambda>w. (Inr (), w)),
       execute = (\<lambda>statement w.
         if statement \<in> set (rejected w) then (Inl (Exn ''SQL error''), w) else (Inr (), w)),
       fetchall = (\<lambda>w. (Inr (rows w), w)),
       commit = (\<lambda>w.
         if commits w then (Inr (), w) else (Inl (Exn ''MySQL Connection not available''), w)),
       cursor_exit = (\<lambda>w. (Inr (), w)),
       connection_exit = (\<lambda>w. (Inr (), w)) \<rparr>"

definition main_params :: connection_params where
  "main_params =
     \<lparr> host = ''localhost'', user = ''root'', password = ''1234567890'',
       database = ''temp'', raise_on_warnings = True \<rparr>"

definition main_runner :: runner where
  "main_runner = \<lparr> connection_params = main_params \<rparr>"

definition batch3 :: script where
  "batch3 =
     \<lparr> entries = [''c.sql'', ''a.sql'', ''notes.txt'', ''b.sql'', ''d.SQL''],
       contents =
         [(''sql_files/a.sql'', ''CREATE TABLE t (x INT); INSERT INTO t VALUES (1);''),
          (''sql_files/b.sql'', ''INSERT INTO missing VALUES (1); SELECT * FROM t''),
          (''sql_files/c.sql'', ''SELECT * FROM t;'')],
       reachable = True,
       rejected = [''INSERT INTO missing VALUES (1)''],
       rows = [''(1,)''],
       commits = True \<rparr>"

section \<open>Reading a trace\<close>

text \<open>
  What a trace holds: the calls made, the exceptions raised, the statements whose execution
  was attempted, the statements executed without error, and the files opened, each in
  the order of the trace.
\<close>

fun call_of :: "event \<Rightarrow> call list" where
  "call_of (Call c r) = [c]"
| "call_of (Log l m) = []"

fun raised_by :: "event \<Rightarrow> exn list" where
  "raised_by (Call c (Some e)) = [e]"
| "raised_by (Call c None) = []"
| "raised_by (Log l m) = []"

fun attempted_by :: "event \<Rightarrow> string list" where
  "attempted_by (Call (Execute statement) r) = [statement]"
| "attempted_by ev = []"

fun executed_by :: "event \<Rightarrow> string list" where
  "executed_by (Call (Execute statement) None) = [statement]"
| "executed_by ev = []"

fun opened_by :: "event \<Rightarrow> string list" where
  "opened_by (Call (OpenRead file_path) r) = [file_path]"
| "opened_by ev = []"

definition calls :: "event list \<Rightarrow> call list" where
  "calls evs = concat (map call_of evs)"

definition raised :: "event list \<Rightarrow> exn list" where
  "raised evs = concat (map raised_by evs)"

definition attempted :: "event list \<Rightarrow> string list" where
  "attempted evs = concat (map attempted_by evs)"

definition executed_ok :: "event list \<Rightarrow> string list" where
  "executed_ok evs = concat (map executed_by evs)"

definition opened :: "event list \<Rightarrow> string list" where
  "opened evs = concat (map opened_by evs)"

definition failure_entry :: "string \<Rightarrow> exn \<Rightarrow> event" where
  \<comment> \<open>the record of line 67\<close>
  "failure_entry file_name e =
     Log ERROR (''Error executing query from '' @ file_name @ '': '' @ str e)"

definition file_fails :: "'w client \<Rightarrow> runner \<Rightarrow> string \<Rightarrow> 'w \<Rightarrow> bool" where
  \<comment> \<open>the file fails to load, or its execution reports failure, in the world \<open>w\<close>\<close>
  "file_fails env self sql_file w =
     (case read_query_from_file env sql_file w of
        (Inl e, evs, w1) \<Rightarrow> True
      | (Inr query, evs, w1) \<Rightarrow>
          \<not> fst (execute_query env self query (basename sql_file) w1))"

text \<open>
  The answers of the client alone, without the runner: \<open>every_statement_ok\<close> says that
  every statement of a list executes, and the rows of every select among them are
  fetched, without an exception, from one state of the world to another;
  \<open>exits_never_raise\<close> says that the two exits raise in no state of the world.
  \<open>raised_of\<close> is the exception of an answer, if it is one.
\<close>

fun every_statement_ok :: "'w client \<Rightarrow> string list \<Rightarrow> 'w \<Rightarrow> 'w option" where
  "every_statement_ok env [] w = Some w"
| "every_statement_ok env (statement # rest) w =
     (case execute env statement w of
        (Inl e, w1) \<Rightarrow> None
      | (Inr _, w1) \<Rightarrow>
          if is_select statement then
            (case fetchall env w1 of
               (Inl e, w2) \<Rightarrow> None
             | (Inr results, w2) \<Rightarrow> every_statement_ok env rest w2)
          else every_statement_ok env rest w1)"

definition exits_never_raise :: "'w client \<Rightarrow> bool" where
  "exits_never_raise env =
     (\<forall>w. fst (cursor_exit env w) = Inr () \<and> fst (connection_exit env w) = Inr ())"

fun raised_of :: "exn + 'a \<Rightarrow> exn option" where
  "raised_of (Inl e) = Some e"
| "raised_of (Inr v) = None"

text \<open>
  What leaves the \<open>try\<close> after the two exits have run, given what the cursor block was
  leaving with and the answers of the cursor's exit and of the connection's exit: the
  exception of the connection's exit if it raises, else that of the cursor's exit if it
  raises, else what the cursor block left with.
\<close>

fun after_exits :: "exn + bool \<Rightarrow> exn + unit \<Rightarrow> exn + unit \<Rightarrow> exn + bool" where
  "after_exits r x1 (Inl e2) = Inl e2"
| "after_exits r (Inl e1) (Inr v) = Inl e1"
| "after_exits r (Inr u) (Inr v) = r"

section \<open>The specification's wording\<close>

definition spec_is_select :: "string \<Rightarrow> bool" where
  \<comment> \<open>the statement's trimmed, lowercased text begins with \<open>select\<close>\<close>
  "spec_is_select statement = startswith (lower (strip statement)) ''select''"

definition dir_prefix :: "string \<Rightarrow> string" where
  \<comment> \<open>the prefix that all joined paths of one directory share\<close>
  "dir_prefix a = (if a = [] \<or> endswith a ''/'' then a else a @ ''/'')"

definition discovery_by_name :: "string \<Rightarrow> string list \<Rightarrow> string list" where
  \<comment> \<open>discovery that sorts the bare entry names and joins them afterwards\<close>
  "discovery_by_name directory names =
     map (path_join directory) (sort (filter (\<lambda>file. endswith file ''.sql'') names))"

section \<open>Properties of the string operations\<close>

lemma split_acc_nonempty: "split_acc sep acc s \<noteq> []"
  by (induction s arbitrary: acc) auto

lemma join_with_Cons:
  "fs \<noteq> [] \<Longrightarrow> join_with sep (f # fs) = f @ sep # join_with sep fs"
  by (cases fs) auto

lemma join_split_acc: "join_with sep (split_acc sep acc s) = rev acc @ s"
proof (induction s arbitrary: acc)
  case Nil
  show ?case by simp
next
  case (Cons c cs)
  show ?case
  proof (cases "c = sep")
    case True
    then show ?thesis
      using Cons.IH [of "[]"] by (simp add: join_with_Cons split_acc_nonempty)
  next
    case False
    then show ?thesis
      using Cons.IH [of "c # acc"] by simp
  qed
qed

lemma split_acc_no_sep:
  "sep \<notin> set acc \<Longrightarrow> f \<in> set (split_acc sep acc s) \<Longrightarrow> sep \<notin> set f"
proof (induction s arbitrary: acc)
  case Nil
  then show ?case by auto
next
  case (Cons c cs)
  show ?case
  proof (cases "c = sep")
    case True
    with Cons.prems have "f = rev acc \<or> f \<in> set (split_acc sep [] cs)"
      by simp
    then show ?thesis
      using Cons.prems(1) Cons.IH [of "[]"] by auto
  next
    case False
    with Cons.prems have "f \<in> set (split_acc sep (c # acc) cs)" and "sep \<notin> set (c # acc)"
      by auto
    then show ?thesis
      using Cons.IH [of "c # acc"] by blast
  qed
qed

lemma length_split_acc:
  "length (split_acc sep acc s) = Suc (length (filter (\<lambda>c. c = sep) s))"
  by (induction s arbitrary: acc) auto

lemma strip_filter_map:
  "map strip (filter (\<lambda>stmt. strip stmt \<noteq> []) fs) =
   filter (\<lambda>fragment. fragment \<noteq> []) (map strip fs)"
  by (induction fs) auto

lemma strip_no_leading: "strip s \<noteq> [] \<Longrightarrow> \<not> isspace (hd (strip s))"
proof -
  assume ne: "strip s \<noteq> []"
  define t where "t = dropWhile isspace s"
  have t_hd: "t \<noteq> [] \<Longrightarrow> \<not> isspace (hd t)"
    unfolding t_def by (simp add: hd_dropWhile)
  have eq: "strip s = rev (dropWhile isspace (rev t))"
    by (simp add: strip_def t_def)
  define u where "u = dropWhile isspace (rev t)"
  have "\<exists>v. rev t = v @ u"
    unfolding u_def by (metis takeWhile_dropWhile_id)
  then obtain v where v: "rev t = v @ u" ..
  then have "t = rev u @ rev v"
    by (metis rev_append rev_rev_ident)
  moreover have "rev u \<noteq> []"
    using ne eq u_def by simp
  ultimately have "hd t = hd (rev u)" and "t \<noteq> []"
    by auto
  then show ?thesis
    using t_hd eq u_def by simp
qed

lemma strip_no_trailing: "strip s \<noteq> [] \<Longrightarrow> \<not> isspace (last (strip s))"
proof -
  assume ne: "strip s \<noteq> []"
  have "dropWhile isspace (rev (dropWhile isspace s)) \<noteq> []"
    using ne by (simp add: strip_def)
  then have "\<not> isspace (hd (dropWhile isspace (rev (dropWhile isspace s))))"
    by (rule hd_dropWhile)
  then show ?thesis
    using ne by (simp add: strip_def last_rev)
qed

lemma strip_all_space: "(\<forall>c \<in> set s. isspace c) \<Longrightarrow> strip s = []"
proof -
  assume "\<forall>c \<in> set s. isspace c"
  then have "dropWhile isspace s = []"
    by (simp add: dropWhile_eq_Nil_conv)
  then show ?thesis
    by (simp only: strip_def rev.simps dropWhile.simps)
qed

section \<open>Properties of discovery\<close>

lemma collect_sql_eq:
  "collect_sql directory sql_files names =
   sql_files @ map (path_join directory) (filter (\<lambda>file. endswith file ''.sql'') names)"
  by (induction names arbitrary: sql_files) auto

lemma path_join_prefix:
  "\<not> startswith b ''/'' \<Longrightarrow> path_join a b = dir_prefix a @ b"
  by (simp add: path_join_def dir_prefix_def)

lemma startswith_slash: "startswith b ''/'' \<Longrightarrow> CHR ''/'' \<in> set b"
  by (cases b) (auto simp: startswith_def)

lemma append_le_iff: "(p @ a \<le> p @ b) = (a \<le> (b :: string))"
  by (induction p) auto

lemma sorted_map_prefix: "sorted (map ((@) p) xs) = sorted (xs :: string list)"
  by (induction xs) (auto simp: append_le_iff)

lemma sort_map_prefix: "sort (map ((@) p) xs) = map ((@) p) (sort (xs :: string list))"
proof (rule properties_for_sort)
  show "mset (map ((@) p) (sort xs)) = mset (map ((@) p) xs)"
    by simp
  show "sorted (map ((@) p) (sort xs))"
    by (simp add: sorted_map_prefix)
qed

lemma map_path_join_prefix:
  "\<forall>name \<in> set names. \<not> startswith name ''/'' \<Longrightarrow>
   map (path_join directory) names = map ((@) (dir_prefix directory)) names"
  by (induction names) (auto simp: path_join_prefix)

lemma sort_map_path_join:
  assumes "\<forall>name \<in> set names. \<not> startswith name ''/''"
  shows "sort (map (path_join directory) names) = map (path_join directory) (sort names)"
proof -
  have "\<forall>name \<in> set (sort names). \<not> startswith name ''/''"
    using assms by simp
  then have a: "map (path_join directory) (sort names) = map ((@) (dir_prefix directory)) (sort names)"
    by (rule map_path_join_prefix)
  have b: "map (path_join directory) names = map ((@) (dir_prefix directory)) names"
    using assms by (rule map_path_join_prefix)
  show ?thesis
    by (simp only: a b sort_map_prefix)
qed

section \<open>Properties of the statement loop\<close>

lemmas trace_defs = calls_def raised_def attempted_def executed_ok_def opened_def

lemma log_results_quiet:
  "calls (log_results results) = []" "raised (log_results results) = []"
  "attempted (log_results results) = []" "executed_ok (log_results results) = []"
  "opened (log_results results) = []"
  by (induction results) (auto simp: trace_defs log_results_def)

lemma trace_append:
  "calls (xs @ ys) = calls xs @ calls ys" "raised (xs @ ys) = raised xs @ raised ys"
  "attempted (xs @ ys) = attempted xs @ attempted ys"
  "executed_ok (xs @ ys) = executed_ok xs @ executed_ok ys"
  "opened (xs @ ys) = opened xs @ opened ys"
  by (simp_all add: trace_defs)

lemma trace_Cons:
  "calls (ev # evs) = call_of ev @ calls evs" "raised (ev # evs) = raised_by ev @ raised evs"
  "attempted (ev # evs) = attempted_by ev @ attempted evs"
  "executed_ok (ev # evs) = executed_by ev @ executed_ok evs"
  "opened (ev # evs) = opened_by ev @ opened evs"
  by (simp_all add: trace_defs)

lemma trace_Nil:
  "calls [] = []" "raised [] = []" "attempted [] = []" "executed_ok [] = []" "opened [] = []"
  by (simp_all add: trace_defs)

lemmas trace_simps = trace_append trace_Cons trace_Nil log_results_quiet

lemma run_statements_Cons:
  "statement \<noteq> [] \<Longrightarrow>
   run_statements env (statement # rest) w =
     (case execute env statement w of
        (Inl e, w1) \<Rightarrow> (Inl e, [Call (Execute statement) (Some e)], w1)
      | (Inr u, w1) \<Rightarrow>
          if is_select statement then
            (case fetchall env w1 of
               (Inl e, w2) \<Rightarrow>
                 (Inl e, [Call (Execute statement) None, Call Fetchall (Some e)], w2)
             | (Inr results, w2) \<Rightarrow>
                 (case run_statements env rest w2 of
                    (r, evs, w3) \<Rightarrow>
                      (r,
                       [Call (Execute statement) None, Call Fetchall None]
                         @ log_results results @ evs,
                       w3)))
          else
            (case run_statements env rest w1 of
               (r, evs, w3) \<Rightarrow> (r, Call (Execute statement) None # evs, w3)))"
  by simp

lemma run_statements_trace:
  assumes "\<forall>s \<in> set stmts. s \<noteq> []"
    and "run_statements env stmts w = (r, evs, w')"
  shows "Commit \<notin> set (calls evs) \<and> opened evs = []
         \<and> (\<forall>c \<in> set (calls evs). c = Fetchall \<or> (\<exists>s. c = Execute s))
         \<and> (r = Inr () \<longrightarrow> raised evs = [] \<and> executed_ok evs = stmts \<and> attempted evs = stmts)
         \<and> (\<forall>e. r = Inl e \<longrightarrow> raised evs = [e])
         \<and> attempted evs = take (length (attempted evs)) stmts
         \<and> (\<forall>s e. Call (Execute s) (Some e) \<in> set evs \<longrightarrow>
               r = Inl e \<and> attempted evs = executed_ok evs @ [s])"
  using assms
proof (induction stmts arbitrary: w r evs w')
  case Nil
  then show ?case by (auto simp: trace_simps)
next
  case (Cons statement rest)
  have ne: "statement \<noteq> []" and rest_ne: "\<forall>s \<in> set rest. s \<noteq> []"
    using Cons.prems(1) by auto
  note IH = Cons.IH [OF rest_ne]
  obtain x w1 where ex: "execute env statement w = (x, w1)"
    by (cases "execute env statement w") 
  show ?case
  proof (cases x)
    case (Inl e)
    then show ?thesis
      using Cons.prems(2) ex ne by (auto simp: trace_simps log_results_def)
  next
    case (Inr u)
    show ?thesis
    proof (cases "is_select statement")
      case False
      obtain r2 evs2 w3 where rec: "run_statements env rest w1 = (r2, evs2, w3)"
        by (cases "run_statements env rest w1")
      have shape: "r = r2" "evs = Call (Execute statement) None # evs2"
        using Cons.prems(2) ex ne Inr False rec by auto
      show ?thesis
        using IH [OF rec] unfolding shape by (auto simp: trace_simps)
    next
      case True
      obtain y w2 where fe: "fetchall env w1 = (y, w2)"
        by (cases "fetchall env w1")
      show ?thesis
      proof (cases y)
        case (Inl e)
        then show ?thesis
          using Cons.prems(2) ex ne Inr True fe by (auto simp: trace_simps)
      next
        case (Inr results)
        obtain r2 evs2 w3 where rec: "run_statements env rest w2 = (r2, evs2, w3)"
          by (cases "run_statements env rest w2")
        have shape: "r = r2"
          "evs = [Call (Execute statement) None, Call Fetchall None] @ log_results results @ evs2"
          using Cons.prems(2) ex ne \<open>x = Inr u\<close> True fe Inr rec by auto
        have nolog: "Call (Execute s) (Some e) \<notin> set (log_results results)" for s e
          by (auto simp: log_results_def)
        show ?thesis
          using IH [OF rec] nolog unfolding shape by (auto simp: trace_simps)
      qed
    qed
  qed
qed

lemma run_statements_append:
  assumes "run_statements env pre w = (Inr (), evs0, w0)"
  shows "run_statements env (pre @ rest) w =
           (case run_statements env rest w0 of (r, evs, w') \<Rightarrow> (r, evs0 @ evs, w'))"
  using assms
proof (induction pre arbitrary: w evs0)
  case Nil
  then show ?case by (simp split: prod.splits)
next
  case (Cons statement pre)
  show ?case
  proof (cases "statement = []")
    case True
    then show ?thesis
      using Cons.prems Cons.IH [of w evs0] by simp
  next
    case ne: False
    obtain x w1 where ex: "execute env statement w = (x, w1)"
      by (cases "execute env statement w")
    show ?thesis
    proof (cases x)
      case (Inl e)
      then show ?thesis using Cons.prems ex ne by simp
    next
      case x: (Inr u)
      show ?thesis
      proof (cases "is_select statement")
        case False
        obtain r2 evs2 w3 where rec: "run_statements env pre w1 = (r2, evs2, w3)"
          by (cases "run_statements env pre w1")
        have shape: "r2 = Inr ()" "evs0 = Call (Execute statement) None # evs2" "w3 = w0"
          using Cons.prems ex ne x False rec by auto
        show ?thesis
          using Cons.IH [of w1 evs2] rec shape ex ne x False
          by (simp split: prod.splits)
      next
        case True
        obtain y w2 where fe: "fetchall env w1 = (y, w2)"
          by (cases "fetchall env w1")
        show ?thesis
        proof (cases y)
          case (Inl e)
          then show ?thesis using Cons.prems ex ne x True fe by simp
        next
          case y: (Inr results)
          obtain r2 evs2 w3 where rec: "run_statements env pre w2 = (r2, evs2, w3)"
            by (cases "run_statements env pre w2")
          have shape: "r2 = Inr ()" "w3 = w0"
            "evs0 = [Call (Execute statement) None, Call Fetchall None]
                      @ log_results results @ evs2"
            using Cons.prems ex ne x True fe y rec by auto
          show ?thesis
            using Cons.IH [of w2 evs2] rec shape ex ne x True fe y
            by (simp split: prod.splits)
        qed
      qed
    qed
  qed
qed

lemma run_statements_fetches:
  "run_statements env stmts w = (r, evs, w') \<Longrightarrow>
   length (filter (\<lambda>c. c = Fetchall) (calls evs)) \<le> length (filter is_select stmts)"
proof (induction stmts arbitrary: w r evs w')
  case Nil
  then show ?case by (simp add: trace_simps)
next
  case (Cons statement rest)
  show ?case
  proof (cases "statement = []")
    case True
    then show ?thesis
      using Cons.prems Cons.IH [of w r evs w'] by (simp add: le_SucI)
  next
    case ne: False
    obtain x w1 where ex: "execute env statement w = (x, w1)"
      by (cases "execute env statement w")
    show ?thesis
    proof (cases x)
      case (Inl e)
      then show ?thesis using Cons.prems ex ne by (auto simp: trace_simps)
    next
      case x: (Inr u)
      show ?thesis
      proof (cases "is_select statement")
        case False
        obtain r2 evs2 w3 where rec: "run_statements env rest w1 = (r2, evs2, w3)"
          by (cases "run_statements env rest w1")
        have shape: "evs = Call (Execute statement) None # evs2"
          using Cons.prems ex ne x False rec by auto
        show ?thesis
          using Cons.IH [OF rec] False unfolding shape by (simp add: trace_simps)
      next
        case True
        obtain y w2 where fe: "fetchall env w1 = (y, w2)"
          by (cases "fetchall env w1")
        show ?thesis
        proof (cases y)
          case (Inl e)
          then show ?thesis using Cons.prems ex ne x True fe by (auto simp: trace_simps)
        next
          case y: (Inr results)
          obtain r2 evs2 w3 where rec: "run_statements env rest w2 = (r2, evs2, w3)"
            by (cases "run_statements env rest w2")
          have shape:
            "evs = [Call (Execute statement) None, Call Fetchall None]
                      @ log_results results @ evs2"
            using Cons.prems ex ne x True fe y rec by auto
          show ?thesis
            using Cons.IH [OF rec] True unfolding shape by (simp add: trace_simps)
        qed
      qed
    qed
  qed
qed

lemma run_statements_head:
  "run_statements env stmts w = (r, evs, w') \<Longrightarrow>
   evs = [] \<or> (\<exists>s x. hd evs = Call (Execute s) x)"
proof (induction stmts arbitrary: w r evs w')
  case Nil
  then show ?case by simp
next
  case (Cons statement rest)
  show ?case
  proof (cases "statement = []")
    case True
    then show ?thesis
      using Cons.prems Cons.IH [of w r evs w'] by simp
  next
    case False
    then show ?thesis
      using Cons.prems by (auto split: prod.splits sum.splits if_splits)
  qed
qed

lemma of_char_lt_256: "(of_char c :: nat) < 256"
  by simp

lemma isspace_lower_char: "isspace (lower_char c) = isspace c"
  using of_char_lt_256 [of c] by (auto simp: isspace_def lower_char_def Let_def)

lemma dropWhile_isspace_lower:
  "dropWhile isspace (map lower_char s) = map lower_char (dropWhile isspace s)"
  by (induction s) (auto simp: isspace_lower_char)

lemma strip_lower: "strip (lower s) = lower (strip s)"
proof -
  have "dropWhile isspace (rev (map lower_char (dropWhile isspace s)))
      = map lower_char (dropWhile isspace (rev (dropWhile isspace s)))"
    using dropWhile_isspace_lower [of "rev (dropWhile isspace s)"] by (simp add: rev_map)
  then show ?thesis
    by (simp add: strip_def lower_def dropWhile_isspace_lower rev_map)
qed

lemma is_select_spec: "is_select statement = spec_is_select statement"
  by (simp add: is_select_def spec_is_select_def strip_lower)

lemma split_acc_chars:
  "f \<in> set (split_acc sep acc s) \<Longrightarrow> set f \<subseteq> (set acc \<union> set s) - {sep} \<union> set acc"
proof (induction s arbitrary: acc)
  case Nil
  then show ?case by auto
next
  case (Cons c cs)
  show ?case
  proof (cases "c = sep")
    case True
    with Cons.prems have "f = rev acc \<or> f \<in> set (split_acc sep [] cs)"
      by simp
    then show ?thesis
      using Cons.IH [of "[]"] by auto
  next
    case False
    with Cons.prems have "f \<in> set (split_acc sep (c # acc) cs)"
      by simp
    then show ?thesis
      using Cons.IH [of "c # acc"] False by auto
  qed
qed

lemma statements_blank:
  assumes "\<forall>c \<in> set query. isspace c \<or> c = CHR '';''"
  shows "statements query = []"
proof -
  have "strip f = []" if "f \<in> set (split query (CHR '';''))" for f
  proof -
    have "set f \<subseteq> set query - {CHR '';''}"
      using that split_acc_chars [of f "CHR '';''" "[]" query] by (auto simp: split_def)
    then have "\<forall>c \<in> set f. isspace c"
      using assms by auto
    then show ?thesis by (rule strip_all_space)
  qed
  then show ?thesis
    by (simp add: statements_def filter_empty_conv)
qed

section \<open>Properties of the executor and of the batch\<close>

lemma statements_nonempty: "\<forall>s \<in> set (statements query). s \<noteq> []"
  by (auto simp: statements_def)

lemma run_statements_answers:
  assumes "\<forall>s \<in> set stmts. s \<noteq> []"
    and "run_statements env stmts w = (r, evs, w')"
  shows "every_statement_ok env stmts w = (case r of Inl e \<Rightarrow> None | Inr u \<Rightarrow> Some w')"
  using assms
proof (induction stmts arbitrary: w r evs w')
  case Nil
  then show ?case by auto
next
  case (Cons statement rest)
  have ne: "statement \<noteq> []" and rest_ne: "\<forall>s \<in> set rest. s \<noteq> []"
    using Cons.prems(1) by auto
  note IH = Cons.IH [OF rest_ne]
  obtain x w1 where ex: "execute env statement w = (x, w1)"
    by (cases "execute env statement w")
  show ?case
  proof (cases x)
    case (Inl e)
    then show ?thesis
      using Cons.prems(2) ex ne by auto
  next
    case (Inr u)
    show ?thesis
    proof (cases "is_select statement")
      case False
      obtain r2 evs2 w3 where rec: "run_statements env rest w1 = (r2, evs2, w3)"
        by (cases "run_statements env rest w1")
      have shape: "r = r2" "w' = w3"
        using Cons.prems(2) ex ne Inr False rec by auto
      show ?thesis
        using IH [OF rec] ex Inr False unfolding shape by simp
    next
      case True
      obtain y w2 where fe: "fetchall env w1 = (y, w2)"
        by (cases "fetchall env w1")
      show ?thesis
      proof (cases y)
        case (Inl e)
        then show ?thesis
          using Cons.prems(2) ex ne Inr True fe by auto
      next
        case y: (Inr results)
        obtain r2 evs2 w3 where rec: "run_statements env rest w2 = (r2, evs2, w3)"
          by (cases "run_statements env rest w2")
        have shape: "r = r2" "w' = w3"
          using Cons.prems(2) ex ne Inr True fe y rec by auto
        show ?thesis
          using IH [OF rec] ex Inr True fe y unfolding shape by simp
      qed
    qed
  qed
qed

lemma cursor_block_cases:
  assumes "cursor_block env query file_name w = (r, evs, w')"
  obtains
    (statement_failed) e loop where
      "run_statements env (statements query) w = (Inl e, loop, w')" "r = Inl e"
      "evs = Log INFO (''Executing query from '' @ file_name) # loop"
  | (commit_failed) loop w3 e where
      "run_statements env (statements query) w = (Inr (), loop, w3)"
      "commit env w3 = (Inl e, w')" "r = Inl e"
      "evs = Log INFO (''Executing query from '' @ file_name) # loop @ [Call Commit (Some e)]"
  | (committed) loop w3 where
      "run_statements env (statements query) w = (Inr (), loop, w3)"
      "commit env w3 = (Inr (), w')" "r = Inr True"
      "evs = Log INFO (''Executing query from '' @ file_name) # loop
             @ [Call Commit None,
                Log INFO (''Successfully executed query from '' @ file_name)]"
proof -
  obtain x loop w3 where l: "run_statements env (statements query) w = (x, loop, w3)"
    by (cases "run_statements env (statements query) w")
  show ?thesis
  proof (cases x)
    case (Inl e)
    then show ?thesis
      using assms l statement_failed [of e loop] by (auto simp: cursor_block_def)
  next
    case x: (Inr u)
    obtain z w4 where co: "commit env w3 = (z, w4)"
      by (cases "commit env w3")
    show ?thesis
    proof (cases z)
      case (Inl e)
      then show ?thesis
        using assms l x co commit_failed [of loop w3 e] by (auto simp: cursor_block_def)
    next
      case (Inr u')
      then show ?thesis
        using assms l x co committed [of loop w3] by (auto simp: cursor_block_def)
    qed
  qed
qed

lemma cursor_block_trace:
  assumes "cursor_block env query file_name w = (r, evs, w')"
  shows "opened evs = []
         \<and> (r = Inr True \<or> (\<exists>e. r = Inl e))
         \<and> (r = Inr True \<longleftrightarrow>
              (\<exists>w3. every_statement_ok env (statements query) w = Some w3
                 \<and> commit env w3 = (Inr (), w')))
         \<and> (r = Inr True \<longrightarrow> raised evs = [] \<and> executed_ok evs = statements query
               \<and> Call Commit None \<in> set evs
               \<and> Log INFO (''Successfully executed query from '' @ file_name) \<in> set evs)
         \<and> (\<forall>e. r = Inl e \<longrightarrow> raised evs = [e])
         \<and> attempted evs = take (length (attempted evs)) (statements query)
         \<and> (\<forall>s e. Call (Execute s) (Some e) \<in> set evs \<longrightarrow>
               r = Inl e \<and> Commit \<notin> set (calls evs)
               \<and> attempted evs = executed_ok evs @ [s])"
  using assms
proof (cases rule: cursor_block_cases)
  case (statement_failed e loop)
  note t = run_statements_trace [OF statements_nonempty statement_failed(1)]
  note a = run_statements_answers [OF statements_nonempty statement_failed(1)]
  have "opened evs = opened loop" "raised evs = raised loop" "attempted evs = attempted loop"
    "executed_ok evs = executed_ok loop" "calls evs = calls loop"
    "\<And>s e. Call (Execute s) (Some e) \<in> set evs \<longleftrightarrow> Call (Execute s) (Some e) \<in> set loop"
    unfolding statement_failed(3) by (auto simp: trace_simps)
  then show ?thesis
    using t a statement_failed(2) by auto
next
  case (commit_failed loop w3 e)
  note t = run_statements_trace [OF statements_nonempty commit_failed(1)]
  note a = run_statements_answers [OF statements_nonempty commit_failed(1)]
  have "opened evs = opened loop" "raised evs = raised loop @ [e]"
    "attempted evs = attempted loop"
    "\<And>s e. Call (Execute s) (Some e) \<in> set evs \<longleftrightarrow> Call (Execute s) (Some e) \<in> set loop"
    unfolding commit_failed(4) by (auto simp: trace_simps)
  then show ?thesis
    using t a commit_failed(2,3) by auto
next
  case (committed loop w3)
  note t = run_statements_trace [OF statements_nonempty committed(1)]
  note a = run_statements_answers [OF statements_nonempty committed(1)]
  have "opened evs = opened loop" "raised evs = raised loop"
    "attempted evs = attempted loop" "executed_ok evs = executed_ok loop"
    "Call Commit None \<in> set evs"
    "Log INFO (''Successfully executed query from '' @ file_name) \<in> set evs"
    "\<And>s e. Call (Execute s) (Some e) \<in> set evs \<longleftrightarrow> Call (Execute s) (Some e) \<in> set loop"
    unfolding committed(4) by (auto simp: trace_simps)
  then show ?thesis
    using t a committed(2,3) by auto
qed

lemma execute_query_shape:
  assumes "execute_query env self query file_name w = (b, evs, w')"
  obtains
    (connect_failed) e where
      "connect env (connection_params self) w = (Inl e, w')" "\<not> b"
      "evs = [Call (Connect (connection_params self)) (Some e), failure_entry file_name e]"
  | (cursor_failed) w1 e w2 x2 where
      "connect env (connection_params self) w = (Inr (), w1)"
      "cursor env w1 = (Inl e, w2)" "connection_exit env w2 = (x2, w')" "\<not> b"
      "evs = [Call (Connect (connection_params self)) None, Call Cursor (Some e),
              Call ConnectionExit (raised_of x2),
              failure_entry file_name (case x2 of Inl e2 \<Rightarrow> e2 | Inr v \<Rightarrow> e)]"
  | (ran) w1 w2 r body w3 x1 w4 x2 where
      "connect env (connection_params self) w = (Inr (), w1)"
      "cursor env w1 = (Inr (), w2)"
      "cursor_block env query file_name w2 = (r, body, w3)"
      "cursor_exit env w3 = (x1, w4)" "connection_exit env w4 = (x2, w')"
      "b = (after_exits r x1 x2 = Inr True)"
      "evs = Call (Connect (connection_params self)) None # Call Cursor None # body
             @ [Call CursorExit (raised_of x1), Call ConnectionExit (raised_of x2)]
             @ (case after_exits r x1 x2 of
                  Inl e \<Rightarrow> [failure_entry file_name e] | Inr v \<Rightarrow> [])"
proof -
  obtain x w1 where c: "connect env (connection_params self) w = (x, w1)"
    by (cases "connect env (connection_params self) w")
  show ?thesis
  proof (cases x)
    case (Inl e)
    then show ?thesis
      using assms c connect_failed [of e]
      by (auto simp: execute_query_def try_block_def failure_entry_def)
  next
    case x: (Inr u)
    obtain y w2 where cu: "cursor env w1 = (y, w2)"
      by (cases "cursor env w1")
    show ?thesis
    proof (cases y)
      case (Inl e)
      obtain x2 w4 where ce: "connection_exit env w2 = (x2, w4)"
        by (cases "connection_exit env w2")
      show ?thesis
        using assms c x cu Inl ce cursor_failed [of w1 e w2 x2]
        by (cases x2)
          (auto simp: execute_query_def try_block_def connection_block_def leave_with_def
            failure_entry_def)
    next
      case y: (Inr u')
      obtain r body w3 where cb: "cursor_block env query file_name w2 = (r, body, w3)"
        by (cases "cursor_block env query file_name w2")
      obtain x1 w4 where cx: "cursor_exit env w3 = (x1, w4)"
        by (cases "cursor_exit env w3")
      obtain x2 w5 where ce: "connection_exit env w4 = (x2, w5)"
        by (cases "connection_exit env w4")
      have rr: "r = Inr True \<or> (\<exists>e. r = Inl e)"
        using cursor_block_trace [OF cb] by blast
      show ?thesis
        using assms c x cu y cb cx ce rr ran [of w1 w2 r body w3 x1 w4 x2]
        by (cases x1; cases x2)
          (auto simp: execute_query_def try_block_def connection_block_def leave_with_def
            failure_entry_def)
    qed
  qed
qed

lemma execute_query_opened:
  assumes "execute_query env self query file_name w = (b, evs, w')"
  shows "opened evs = []"
  using assms
proof (cases rule: execute_query_shape)
  case (connect_failed e)
  then show ?thesis by (simp add: trace_simps failure_entry_def)
next
  case (cursor_failed w1 e w2 x2)
  then show ?thesis by (simp add: trace_simps failure_entry_def)
next
  case (ran w1 w2 r body w3 x1 w4 x2)
  have "opened body = []"
    using cursor_block_trace [OF ran(3)] by blast
  then show ?thesis
    unfolding ran(7) by (simp add: trace_simps failure_entry_def split: sum.splits)
qed

lemma read_query_opened:
  "read_query_from_file env file_path w = (r, evs, w1) \<Longrightarrow> opened evs = [file_path]"
  by (auto simp: read_query_from_file_def trace_simps split: prod.splits sum.splits)

lemma process_files_failing:
  assumes "file_fails env self f w"
  shows "\<exists>evs w'. process_files env self (f # post) w = (SysExit 1, evs, w')
           \<and> process_files env self [f] w = (SysExit 1, evs, w')
           \<and> opened evs = [f]"
proof -
  obtain r evs w1 where rd: "read_query_from_file env f w = (r, evs, w1)"
    by (cases "read_query_from_file env f w")
  have o1: "opened evs = [f]"
    using rd by (rule read_query_opened)
  show ?thesis
  proof (cases r)
    case (Inl e)
    then show ?thesis
      using rd o1 by (simp add: trace_simps)
  next
    case (Inr query)
    obtain b evs2 w2 where ex: "execute_query env self query (basename f) w1 = (b, evs2, w2)"
      by (cases "execute_query env self query (basename f) w1")
    have "\<not> b"
      using assms rd Inr ex by (simp add: file_fails_def)
    moreover have "opened evs2 = []"
      using ex by (rule execute_query_opened)
    ultimately show ?thesis
      using rd Inr ex o1 by (simp add: trace_simps)
  qed
qed

lemma process_files_append:
  assumes "process_files env self pre w = (Returned, evs0, w0)"
  shows "process_files env self (pre @ rest) w =
           (case process_files env self rest w0 of (r, evs, w') \<Rightarrow> (r, evs0 @ evs, w'))
         \<and> opened evs0 = pre"
  using assms
proof (induction pre arbitrary: w evs0)
  case Nil
  then show ?case by (simp add: trace_simps split: prod.splits)
next
  case (Cons f pre)
  obtain r evs w1 where rd: "read_query_from_file env f w = (r, evs, w1)"
    by (cases "read_query_from_file env f w")
  have o1: "opened evs = [f]"
    using rd by (rule read_query_opened)
  show ?case
  proof (cases r)
    case (Inl e)
    then show ?thesis
      using Cons.prems rd by simp
  next
    case (Inr query)
    obtain b evs2 w2 where ex: "execute_query env self query (basename f) w1 = (b, evs2, w2)"
      by (cases "execute_query env self query (basename f) w1")
    have o2: "opened evs2 = []"
      using ex by (rule execute_query_opened)
    obtain r3 evs3 w3 where rec: "process_files env self pre w2 = (r3, evs3, w3)"
      by (cases "process_files env self pre w2")
    have b: "b"
      using Cons.prems rd Inr ex by (auto split: if_splits)
    then have shape: "r3 = Returned" "evs0 = evs @ evs2 @ evs3" "w3 = w0"
      using Cons.prems rd Inr ex rec by auto
    have IH: "process_files env self (pre @ rest) w2 =
           (case process_files env self rest w0 of (r, evs, w') \<Rightarrow> (r, evs3 @ evs, w'))
         \<and> opened evs3 = pre"
      using Cons.IH [of w2 evs3] rec shape by simp
    show ?thesis
      using rd Inr ex b IH o1 o2 shape(2)
      by (simp add: trace_simps split: prod.splits)
  qed
qed

lemma scripted_exits: "exits_never_raise scripted"
  by (simp add: exits_never_raise_def scripted_def)

text \<open>The definitions that unfold when the model runs on the scripted client.\<close>

lemmas eval_defs =
  run_all_queries_def get_sql_files_def scripted_def batch3_def endswith_def path_join_def
  startswith_def read_query_from_file_def execute_query_def try_block_def connection_block_def leave_with_def
  cursor_block_def statements_def split_def strip_def isspace_def basename_def is_select_def
  lower_def lower_char_def main_runner_def log_results_def failure_entry_def

section \<open>Claims\<close>

text \<open>
  C1. In a batch over the sorted list of discovered files, let a file be reached (every
  file before it was read and executed with success) and let it fail: its load raises, or
  its execution reports failure. Then the batch ends by \<open>sys.exit(1)\<close>, so the process
  terminates with exit status 1; the files opened are those up to and including the
  failing one, in order, and none after it; and the whole run (outcome, trace and final
  state of the world) is the run of the batch cut after the failing file, so that no file
  after it is read or executed. Nothing is assumed about the files after the failing one.
\<close>

theorem C1_batch_stops_at_first_failure:
  assumes "get_sql_files env directory w = (Inr (pre @ f # post), evs_d, w1)"
    and "process_files env self pre w1 = (Returned, evs0, w0)"
    and "file_fails env self f w0"
  shows "\<exists>evs w'.
           process_files env self (pre @ f # post) w1 = (SysExit 1, evs, w')
         \<and> process_files env self (pre @ [f]) w1 = (SysExit 1, evs, w')
         \<and> opened evs = pre @ [f]
         \<and> run_all_queries env self directory w =
             (SysExit 1,
              evs_d
                @ [Log INFO (''Found '' @ str_nat (length (pre @ f # post))
                     @ '' SQL files to execute'')]
                @ evs,
              w')
         \<and> exit_status (SysExit 1) = 1"
proof -
  obtain evs w' where f: "process_files env self (f # post) w0 = (SysExit 1, evs, w')"
    "process_files env self [f] w0 = (SysExit 1, evs, w')" "opened evs = [f]"
    using process_files_failing [OF assms(3), of post] by blast
  have a: "process_files env self (pre @ f # post) w1 = (SysExit 1, evs0 @ evs, w')"
    using process_files_append [OF assms(2), of "f # post"] f(1) by simp
  have b: "process_files env self (pre @ [f]) w1 = (SysExit 1, evs0 @ evs, w')"
    using process_files_append [OF assms(2), of "[f]"] f(2) by simp
  have c: "opened (evs0 @ evs) = pre @ [f]"
    using process_files_append [OF assms(2), of "[]"] f(3) by (simp add: trace_simps)
  have d: "run_all_queries env self directory w =
             (SysExit 1,
              evs_d
                @ [Log INFO (''Found '' @ str_nat (length (pre @ f # post))
                     @ '' SQL files to execute'')]
                @ evs0 @ evs,
              w')"
    using assms(1) a by (simp add: run_all_queries_def)
  show ?thesis
    using a b c d by (simp add: exit_status_def)
qed

text \<open>
  The three-file batch of the scripted client: \<open>a.sql\<close> succeeds, the first statement of
  \<open>b.sql\<close> is rejected, and \<open>c.sql\<close> is neither read nor executed.
\<close>

theorem C1_witness:
  "get_sql_files scripted ''sql_files'' batch3 =
     (Inr ([''sql_files/a.sql''] @ ''sql_files/b.sql'' # [''sql_files/c.sql'']),
      [Call (Listdir ''sql_files'') None], batch3)
   \<and> fst (process_files scripted main_runner [''sql_files/a.sql''] batch3) = Returned
   \<and> file_fails scripted main_runner ''sql_files/b.sql'' batch3
   \<and> fst (run_all_queries scripted main_runner ''sql_files'' batch3) = SysExit 1
   \<and> opened (fst (snd (run_all_queries scripted main_runner ''sql_files'' batch3)))
       = [''sql_files/a.sql'', ''sql_files/b.sql'']
   \<and> attempted (fst (snd (run_all_queries scripted main_runner ''sql_files'' batch3)))
       = [''CREATE TABLE t (x INT)'', ''INSERT INTO t VALUES (1)'',
          ''INSERT INTO missing VALUES (1)'']"
proof -
  have l: "get_sql_files scripted ''sql_files'' batch3 =
     (Inr ([''sql_files/a.sql''] @ ''sql_files/b.sql'' # [''sql_files/c.sql'']),
      [Call (Listdir ''sql_files'') None], batch3)"
    by (simp add: eval_defs)
  have p: "process_files scripted main_runner [''sql_files/a.sql''] batch3 =
     (Returned,
      [Call (OpenRead ''sql_files/a.sql'') None,
       Call (Connect main_params) None, Call Cursor None,
       Log INFO ''Executing query from a.sql'',
       Call (Execute ''CREATE TABLE t (x INT)'') None,
       Call (Execute ''INSERT INTO t VALUES (1)'') None,
       Call Commit None,
       Log INFO ''Successfully executed query from a.sql'',
       Call CursorExit None, Call ConnectionExit None],
      batch3)"
    by code_simp
  have x: "file_fails scripted main_runner ''sql_files/b.sql'' batch3"
    by code_simp
  have r: "attempted (fst (snd (run_all_queries scripted main_runner ''sql_files'' batch3)))
       = [''CREATE TABLE t (x INT)'', ''INSERT INTO t VALUES (1)'',
          ''INSERT INTO missing VALUES (1)'']"
    by code_simp
  show ?thesis
    using C1_batch_stops_at_first_failure [OF l p x] l p x r
    by (auto simp: trace_simps)
qed

text \<open>
  C2. When the directory can be listed, file discovery returns the joined paths of exactly
  the entries whose name ends with \<open>.sql\<close> (as a multiset: each such entry once per
  occurrence in the listing, and nothing else), in sorted order, and the only call it makes
  is the one listing of the directory itself: no subdirectory is listed. The match is
  case-sensitive. A directory with \<open>a.sql\<close>, \<open>c.sql\<close>, \<open>b.sql\<close> gives them in the order
  a, b, c; of \<open>x.SQL\<close>, \<open>y.sql\<close>, \<open>z.txt\<close> only \<open>y.sql\<close> is selected.
\<close>

theorem C2_file_discovery:
  "(listdir env directory w = (Inr names, w1) \<longrightarrow>
      (\<exists>paths. get_sql_files env directory w = (Inr paths, [Call (Listdir directory) None], w1)
         \<and> sorted paths
         \<and> mset paths =
             mset (map (path_join directory) (filter (\<lambda>file. endswith file ''.sql'') names))))
   \<and> fst (get_sql_files scripted ''d''
            (batch3\<lparr>entries := [''a.sql'', ''c.sql'', ''b.sql'']\<rparr>))
       = Inr [''d/a.sql'', ''d/b.sql'', ''d/c.sql'']
   \<and> fst (get_sql_files scripted ''d''
            (batch3\<lparr>entries := [''x.SQL'', ''y.sql'', ''z.txt'']\<rparr>))
       = Inr [''d/y.sql'']
   \<and> endswith ''y.sql'' ''.sql'' \<and> \<not> endswith ''x.SQL'' ''.sql''
   \<and> \<not> endswith ''z.txt'' ''.sql''"
proof -
  have a: "listdir env directory w = (Inr names, w1) \<longrightarrow>
      (\<exists>paths. get_sql_files env directory w = (Inr paths, [Call (Listdir directory) None], w1)
         \<and> sorted paths
         \<and> mset paths =
             mset (map (path_join directory) (filter (\<lambda>file. endswith file ''.sql'') names)))"
    by (simp add: get_sql_files_def collect_sql_eq)
  have b: "fst (get_sql_files scripted ''d''
            (batch3\<lparr>entries := [''a.sql'', ''c.sql'', ''b.sql'']\<rparr>))
       = Inr [''d/a.sql'', ''d/b.sql'', ''d/c.sql'']"
    by (simp add: get_sql_files_def scripted_def endswith_def path_join_def startswith_def)
  have c: "fst (get_sql_files scripted ''d''
            (batch3\<lparr>entries := [''x.SQL'', ''y.sql'', ''z.txt'']\<rparr>))
       = Inr [''d/y.sql'']"
    by (simp add: get_sql_files_def scripted_def endswith_def path_join_def startswith_def)
  have d: "endswith ''y.sql'' ''.sql'' \<and> \<not> endswith ''x.SQL'' ''.sql''
   \<and> \<not> endswith ''z.txt'' ''.sql''"
    by (simp add: endswith_def)
  from a b c d show ?thesis by blast
qed

text \<open>The directory of the scripted client, listed as \<open>c.sql, a.sql, notes.txt, b.sql, d.SQL\<close>.\<close>

theorem C2_witness:
  "listdir scripted ''sql_files'' batch3 = (Inr (entries batch3), batch3)
   \<and> (\<exists>paths. get_sql_files scripted ''sql_files'' batch3
                 = (Inr paths, [Call (Listdir ''sql_files'') None], batch3)
         \<and> sorted paths
         \<and> mset paths = mset [''sql_files/c.sql'', ''sql_files/a.sql'', ''sql_files/b.sql''])"
proof -
  have l: "listdir scripted ''sql_files'' batch3 = (Inr (entries batch3), batch3)"
    by (simp add: scripted_def)
  have f: "map (path_join ''sql_files'') (filter (\<lambda>file. endswith file ''.sql'') (entries batch3))
      = [''sql_files/c.sql'', ''sql_files/a.sql'', ''sql_files/b.sql'']"
    by (simp add: batch3_def endswith_def path_join_def startswith_def)
  show ?thesis
    using C2_file_discovery [of scripted "''sql_files''" batch3 "entries batch3" batch3] l f
    by simp
qed

text \<open>
  C3. The statement splitter splits the text on the character \<open>;\<close>, trims the whitespace
  at both ends of every fragment, discards the fragments that are empty after trimming and
  keeps the others in their left-to-right order. The source's comprehension (filter on the
  stripped fragment, then strip) computes the list the specification describes (strip, then
  filter); the fragments of the split, joined again by \<open>;\<close>, are the text, and none of them
  holds a \<open>;\<close>, so they are the text's maximal stretches between separators, from left to
  right. The text \<open>INSERT INTO t VALUES (1);  \n SELECT * FROM t; \<close> gives exactly two
  statements and no empty third one.
\<close>

theorem C3_statement_splitter:
  "statements query = spec_statements query
   \<and> join_with (CHR '';'') (split query (CHR '';'')) = query
   \<and> length (split query (CHR '';'')) = Suc (length (filter (\<lambda>c. c = CHR '';'') query))
   \<and> list_all (\<lambda>fragment. CHR '';'' \<notin> set fragment) (split query (CHR '';''))
   \<and> list_all (\<lambda>stmt. stmt \<noteq> [] \<and> \<not> isspace (hd stmt) \<and> \<not> isspace (last stmt))
        (statements query)
   \<and> statements ''INSERT INTO t VALUES (1);  \<newline> SELECT * FROM t; ''
       = [''INSERT INTO t VALUES (1)'', ''SELECT * FROM t'']"
proof -
  have a: "statements query = spec_statements query"
    by (simp add: statements_def spec_statements_def strip_filter_map)
  have b: "join_with (CHR '';'') (split query (CHR '';'')) = query"
    by (simp add: split_def join_split_acc)
  have c: "length (split query (CHR '';'')) = Suc (length (filter (\<lambda>c. c = CHR '';'') query))"
    by (simp add: split_def length_split_acc)
  have d: "list_all (\<lambda>fragment. CHR '';'' \<notin> set fragment) (split query (CHR '';''))"
    unfolding list_all_iff split_def
    using split_acc_no_sep [of "CHR '';''" "[]"] by auto
  have e: "list_all (\<lambda>stmt. stmt \<noteq> [] \<and> \<not> isspace (hd stmt) \<and> \<not> isspace (last stmt))
        (statements query)"
    unfolding list_all_iff statements_def
    using strip_no_leading strip_no_trailing by auto
  have f: "statements ''INSERT INTO t VALUES (1);  \<newline> SELECT * FROM t; ''
       = [''INSERT INTO t VALUES (1)'', ''SELECT * FROM t'']"
    by (simp add: statements_def split_def strip_def isspace_def)
  from a b c d e f show ?thesis by blast
qed



text \<open>
  C5. When the listing of the directory holds no entry that ends with \<open>.sql\<close>, the batch
  orchestrator lists the directory, logs one warning and returns: its whole trace is these
  two entries, so no database connection is opened and no file is read, and the process
  exits with status 0.
\<close>

theorem C5_no_sql_files:
  assumes "listdir env directory w = (Inr names, w1)"
    and "filter (\<lambda>file. endswith file ''.sql'') names = []"
  shows "run_all_queries env self directory w =
           (Returned,
            [Call (Listdir directory) None, Log WARNING (''No SQL files found in '' @ directory)],
            w1)
         \<and> exit_status Returned = 0"
  using assms by (simp add: run_all_queries_def get_sql_files_def collect_sql_eq exit_status_def)

text \<open>A directory with \<open>README.md\<close>, \<open>old.SQL\<close> and an entry named \<open>sql\<close>.\<close>

theorem C5_witness:
  "run_all_queries scripted main_runner ''sql_files''
     (batch3\<lparr>entries := [''README.md'', ''old.SQL'', ''sql'']\<rparr>) =
     (Returned,
      [Call (Listdir ''sql_files'') None, Log WARNING ''No SQL files found in sql_files''],
      batch3\<lparr>entries := [''README.md'', ''old.SQL'', ''sql'']\<rparr>)
   \<and> exit_status Returned = 0"
proof -
  have l: "listdir scripted ''sql_files'' (batch3\<lparr>entries := [''README.md'', ''old.SQL'', ''sql'']\<rparr>)
      = (Inr [''README.md'', ''old.SQL'', ''sql''],
         batch3\<lparr>entries := [''README.md'', ''old.SQL'', ''sql'']\<rparr>)"
    by (simp add: scripted_def)
  have n: "filter (\<lambda>file. endswith file ''.sql'') [''README.md'', ''old.SQL'', ''sql''] = []"
    by (simp add: endswith_def)
  show ?thesis
    using C5_no_sql_files [OF l n, of main_runner] by simp
qed

text \<open>
  C6. If reading the file raises, \<open>read_query_from_file\<close> logs one error record with the
  file path and the text of the exception and raises that same exception to its caller;
  otherwise it returns the text that was read, whole and unchanged, and logs nothing.
\<close>

theorem C6_read_query_from_file:
  "(open_read env file_path w = (Inl e, w1) \<longrightarrow>
      read_query_from_file env file_path w =
        (Inl e,
         [Call (OpenRead file_path) (Some e),
          Log ERROR (''Error reading file '' @ file_path @ '': '' @ str e)],
         w1))
   \<and> (open_read env file_path w = (Inr text, w1) \<longrightarrow>
      read_query_from_file env file_path w =
        (Inr text, [Call (OpenRead file_path) None], w1))"
  by (simp add: read_query_from_file_def)

text \<open>A file that is not there, and one that is.\<close>

theorem C6_witness:
  "open_read scripted ''sql_files/gone.sql'' batch3
     = (Inl (Exn ''No such file or directory''), batch3)
   \<and> read_query_from_file scripted ''sql_files/gone.sql'' batch3 =
        (Inl (Exn ''No such file or directory''),
         [Call (OpenRead ''sql_files/gone.sql'') (Some (Exn ''No such file or directory'')),
          Log ERROR ''Error reading file sql_files/gone.sql: No such file or directory''],
         batch3)
   \<and> open_read scripted ''sql_files/c.sql'' batch3 = (Inr ''SELECT * FROM t;'', batch3)
   \<and> read_query_from_file scripted ''sql_files/c.sql'' batch3 =
        (Inr ''SELECT * FROM t;'', [Call (OpenRead ''sql_files/c.sql'') None], batch3)"
proof -
  have a: "open_read scripted ''sql_files/gone.sql'' batch3
     = (Inl (Exn ''No such file or directory''), batch3)"
    by (simp add: scripted_def batch3_def)
  have b: "open_read scripted ''sql_files/c.sql'' batch3 = (Inr ''SELECT * FROM t;'', batch3)"
    by (simp add: scripted_def batch3_def)
  show ?thesis
    using a b
      C6_read_query_from_file [of scripted "''sql_files/gone.sql''" batch3
        "Exn ''No such file or directory''" batch3]
      C6_read_query_from_file [of scripted "''sql_files/c.sql''" batch3 _ batch3
        "''SELECT * FROM t;''"]
    by simp
qed

text \<open>
  C7. In the statement loop of a file, take a statement that is reached (the statements
  before it ran without error) and whose execution succeeds. If its lowercased, trimmed
  text begins with \<open>select\<close>, its rows are fetched right after its execution, and when the
  fetch returns, one \<open>Result\<close> record per row is logged, in the order of the rows, before
  anything of the later statements happens: what follows in the trace is the trace of the
  remaining statements, which is empty or starts with the execution of the next one. If
  the text does not begin with \<open>select\<close>, its execution is followed at once by the trace
  of the remaining statements, with no fetch. In any run of the loop there are at most as
  many fetches as there are statements that begin with \<open>select\<close>. The source lowercases
  and then trims; this is the same test as trimming and then lowercasing.
\<close>

theorem C7_select_rows_logged:
  assumes "run_statements env pre w = (Inr (), evs0, w0)"
    and "statement \<noteq> []"
    and "execute env statement w0 = (Inr (), w1)"
    and "run_statements env (pre @ statement # rest) w = (r, evs, w')"
  shows "(is_select statement \<longrightarrow> fetchall env w1 = (Inr results, w2) \<longrightarrow>
            (\<exists>later. run_statements env rest w2 = (r, later, w')
               \<and> evs = evs0 @ [Call (Execute statement) None, Call Fetchall None]
                         @ map (\<lambda>row. Log INFO (''Result: '' @ row)) results @ later
               \<and> (later = [] \<or> (\<exists>s x. hd later = Call (Execute s) x))))
         \<and> (\<not> is_select statement \<longrightarrow>
            (\<exists>later. run_statements env rest w1 = (r, later, w')
               \<and> evs = evs0 @ Call (Execute statement) None # later
               \<and> (later = [] \<or> (\<exists>s x. hd later = Call (Execute s) x))))
         \<and> length (filter (\<lambda>c. c = Fetchall) (calls evs))
             \<le> length (filter is_select (pre @ statement # rest))
         \<and> is_select statement = spec_is_select statement"
proof -
  have app: "run_statements env (pre @ statement # rest) w =
      (case run_statements env (statement # rest) w0 of (r, evs, w') \<Rightarrow> (r, evs0 @ evs, w'))"
    using assms(1) by (rule run_statements_append)
  have a: "\<exists>later. run_statements env rest w2 = (r, later, w')
               \<and> evs = evs0 @ [Call (Execute statement) None, Call Fetchall None]
                         @ map (\<lambda>row. Log INFO (''Result: '' @ row)) results @ later
               \<and> (later = [] \<or> (\<exists>s x. hd later = Call (Execute s) x))"
    if sel: "is_select statement" and fe: "fetchall env w1 = (Inr results, w2)"
  proof -
    obtain r2 later w3 where rec: "run_statements env rest w2 = (r2, later, w3)"
      by (cases "run_statements env rest w2")
    have "r2 = r \<and> w3 = w'
        \<and> evs = evs0 @ [Call (Execute statement) None, Call Fetchall None]
                         @ map (\<lambda>row. Log INFO (''Result: '' @ row)) results @ later"
      using assms(4) app assms(2,3) sel fe rec by (simp add: log_results_def)
    then show ?thesis
      using rec run_statements_head [OF rec] by blast
  qed
  have b: "\<exists>later. run_statements env rest w1 = (r, later, w')
               \<and> evs = evs0 @ Call (Execute statement) None # later
               \<and> (later = [] \<or> (\<exists>s x. hd later = Call (Execute s) x))"
    if nsel: "\<not> is_select statement"
  proof -
    obtain r2 later w3 where rec: "run_statements env rest w1 = (r2, later, w3)"
      by (cases "run_statements env rest w1")
    have "r2 = r \<and> w3 = w' \<and> evs = evs0 @ Call (Execute statement) None # later"
      using assms(4) app assms(2,3) nsel rec by simp
    then show ?thesis
      using rec run_statements_head [OF rec] by blast
  qed
  have c: "length (filter (\<lambda>c. c = Fetchall) (calls evs))
             \<le> length (filter is_select (pre @ statement # rest))"
    using assms(4) by (rule run_statements_fetches)
  show ?thesis
    using a b c is_select_spec by blast
qed

text \<open>An update, a select with two rows, and a delete.\<close>

theorem C7_witness:
  "run_statements scripted [''UPDATE t SET x = 2'', ''Select * from t'', ''DELETE FROM t'']
     (batch3\<lparr>rows := [''(2,)'', ''(3,)'']\<rparr>) =
     (Inr (),
      [Call (Execute ''UPDATE t SET x = 2'') None,
       Call (Execute ''Select * from t'') None, Call Fetchall None,
       Log INFO ''Result: (2,)'', Log INFO ''Result: (3,)'',
       Call (Execute ''DELETE FROM t'') None],
      batch3\<lparr>rows := [''(2,)'', ''(3,)'']\<rparr>)
   \<and> is_select ''Select * from t'' \<and> \<not> is_select ''UPDATE t SET x = 2''"
proof -
  let ?w = "batch3\<lparr>rows := [''(2,)'', ''(3,)'']\<rparr>"
  have p: "run_statements scripted [''UPDATE t SET x = 2''] ?w =
      (Inr (), [Call (Execute ''UPDATE t SET x = 2'') None], ?w)"
    by code_simp
  have n: "''Select * from t'' \<noteq> []"
    by simp
  have x: "execute scripted ''Select * from t'' ?w = (Inr (), ?w)"
    by code_simp
  have f: "fetchall scripted ?w = (Inr [''(2,)'', ''(3,)''], ?w)"
    by (simp add: scripted_def)
  have s: "is_select ''Select * from t''"
    by code_simp
  have u: "\<not> is_select ''UPDATE t SET x = 2''"
    by code_simp
  have l: "run_statements scripted [''DELETE FROM t''] ?w =
      (Inr (), [Call (Execute ''DELETE FROM t'') None], ?w)"
    by code_simp
  obtain r evs w' where all:
    "run_statements scripted ([''UPDATE t SET x = 2''] @ ''Select * from t'' # [''DELETE FROM t''])
       ?w = (r, evs, w')"
    by (cases "run_statements scripted
       ([''UPDATE t SET x = 2''] @ ''Select * from t'' # [''DELETE FROM t'']) ?w")
  show ?thesis
    using C7_select_rows_logged [OF p n x all, of "[''(2,)'', ''(3,)'']" ?w] s u f l all
    by auto
qed

text \<open>
  C8. For a text of whitespace and semicolons only, splitting gives no statement. When
  the connection and the cursor open, the commit succeeds and the two exits do not raise,
  executing such a file runs no statement, still issues the commit, in the state of the
  world that the opening of the cursor left, and \<open>execute_query\<close> returns true: the
  whole trace is the connection, the cursor, the start record, the commit, the success
  record and the two exits.
\<close>

theorem C8_blank_file:
  assumes "\<forall>c \<in> set query. isspace c \<or> c = CHR '';''"
    and "connect env (connection_params self) w = (Inr (), w1)"
    and "cursor env w1 = (Inr (), w2)"
    and "commit env w2 = (Inr (), w3)"
    and "cursor_exit env w3 = (Inr (), w4)"
    and "connection_exit env w4 = (Inr (), w5)"
  shows "statements query = []
         \<and> every_statement_ok env (statements query) w2 = Some w2
         \<and> execute_query env self query file_name w =
                (True,
                 [Call (Connect (connection_params self)) None, Call Cursor None,
                  Log INFO (''Executing query from '' @ file_name),
                  Call Commit None,
                  Log INFO (''Successfully executed query from '' @ file_name),
                  Call CursorExit None, Call ConnectionExit None],
                 w5)"
  using statements_blank [OF assms(1)] assms(2-6)
  by (simp add: execute_query_def try_block_def connection_block_def cursor_block_def
      leave_with_def)

text \<open>The file \<open>;  ; ;\<close> on a server that accepts the commit.\<close>

theorem C8_witness:
  "list_all (\<lambda>c. isspace c \<or> c = CHR '';'') '';  ; ;''
   \<and> statements '';  ; ;'' = []
   \<and> execute_query scripted main_runner '';  ; ;'' ''blank.sql'' batch3 =
       (True,
        [Call (Connect main_params) None, Call Cursor None,
         Log INFO ''Executing query from blank.sql'',
         Call Commit None,
         Log INFO ''Successfully executed query from blank.sql'',
         Call CursorExit None, Call ConnectionExit None],
        batch3)"
proof -
  have b: "\<forall>c \<in> set '';  ; ;''. isspace c \<or> c = CHR '';''"
    by (simp add: isspace_def)
  have c: "connect scripted (connection_params main_runner) batch3 = (Inr (), batch3)"
    by (simp add: scripted_def batch3_def)
  have d: "cursor scripted batch3 = (Inr (), batch3)"
    by (simp add: scripted_def)
  have e: "commit scripted batch3 = (Inr (), batch3)"
    by (simp add: scripted_def batch3_def)
  have f: "cursor_exit scripted batch3 = (Inr (), batch3)"
    by (simp add: scripted_def)
  have g: "connection_exit scripted batch3 = (Inr (), batch3)"
    by (simp add: scripted_def)
  show ?thesis
    using C8_blank_file [OF b c d e f g, of "''blank.sql''"] b
    by (simp add: main_runner_def list_all_iff)
qed

text \<open>
  C9. If the trace of \<open>execute_query\<close> holds an execution of a statement that raised, then
  the result is false; the commit was never invoked; the statements whose execution was
  attempted are those executed without error followed by the failing one, so nothing was
  attempted after it; and they are an initial segment of the statements of the file, so
  the failing one is the k-th statement and the statements after the k-th were not
  executed. For a client whose exits never raise, the last record of the trace is the
  error record with the text of that exception.
\<close>

theorem C9_statement_failure_stops_file:
  assumes "execute_query env self query file_name w = (b, evs, w')"
    and "Call (Execute statement) (Some e) \<in> set evs"
  shows "\<not> b \<and> Commit \<notin> set (calls evs)
         \<and> attempted evs = executed_ok evs @ [statement]
         \<and> attempted evs = take (length (attempted evs)) (statements query)
         \<and> (exits_never_raise env \<longrightarrow> last evs = failure_entry file_name e)"
  using assms(1)
proof (cases rule: execute_query_shape)
  case (connect_failed e)
  then show ?thesis using assms(2) by (auto simp: failure_entry_def)
next
  case (cursor_failed w1 e w2 x2)
  then show ?thesis using assms(2) by (auto simp: failure_entry_def)
next
  case (ran w1 w2 r body w3 x1 w4 x2)
  have inbody: "Call (Execute statement) (Some e) \<in> set body"
    using assms(2) unfolding ran(7) by (auto simp: failure_entry_def split: sum.splits)
  have l: "r = Inl e" "Commit \<notin> set (calls body)"
    "attempted body = executed_ok body @ [statement]"
    "attempted body = take (length (attempted body)) (statements query)"
    using cursor_block_trace [OF ran(3)] inbody by blast+
  have t: "attempted evs = attempted body" "executed_ok evs = executed_ok body"
    "set (calls evs) = {Connect (connection_params self), Cursor, CursorExit, ConnectionExit}
       \<union> set (calls body)"
    unfolding ran(7) by (auto simp: trace_simps failure_entry_def split: sum.splits)
  have nb: "\<not> b"
    unfolding ran(6) l(1) by (cases x1; cases x2) simp_all
  have lastev: "last evs = failure_entry file_name e" if q: "exits_never_raise env"
  proof -
    have "fst (cursor_exit env w3) = Inr ()" "fst (connection_exit env w4) = Inr ()"
      using q unfolding exits_never_raise_def by simp_all
    then have "x1 = Inr ()" "x2 = Inr ()"
      using ran(4,5) by simp_all
    then show ?thesis
      unfolding ran(7) l(1) by simp
  qed
  show ?thesis
  proof (intro conjI impI)
    show "\<not> b" by (rule nb)
    show "Commit \<notin> set (calls evs)" using l(2) unfolding t(3) by simp
    show "attempted evs = executed_ok evs @ [statement]" unfolding t(1,2) by (rule l(3))
    show "attempted evs = take (length (attempted evs)) (statements query)"
      unfolding t(1) by (rule l(4))
    show "last evs = failure_entry file_name e" if "exits_never_raise env"
      using that by (rule lastev)
  qed
qed

text \<open>A file of three statements whose second one is rejected.\<close>

theorem C9_witness:
  "Call (Execute ''INSERT INTO missing VALUES (1)'') (Some (Exn ''SQL error''))
     \<in> set (fst (snd (execute_query scripted main_runner
          ''CREATE TABLE u (x INT); INSERT INTO missing VALUES (1); SELECT * FROM t''
          ''b.sql'' batch3)))
   \<and> \<not> fst (execute_query scripted main_runner
          ''CREATE TABLE u (x INT); INSERT INTO missing VALUES (1); SELECT * FROM t''
          ''b.sql'' batch3)
   \<and> Commit \<notin> set (calls (fst (snd (execute_query scripted main_runner
          ''CREATE TABLE u (x INT); INSERT INTO missing VALUES (1); SELECT * FROM t''
          ''b.sql'' batch3))))
   \<and> attempted (fst (snd (execute_query scripted main_runner
          ''CREATE TABLE u (x INT); INSERT INTO missing VALUES (1); SELECT * FROM t''
          ''b.sql'' batch3)))
       = [''CREATE TABLE u (x INT)'', ''INSERT INTO missing VALUES (1)'']
   \<and> exits_never_raise scripted"
proof -
  have a: "execute_query scripted main_runner
     ''CREATE TABLE u (x INT); INSERT INTO missing VALUES (1); SELECT * FROM t''
     ''b.sql'' batch3 =
     (False,
      [Call (Connect main_params) None, Call Cursor None,
       Log INFO ''Executing query from b.sql'',
       Call (Execute ''CREATE TABLE u (x INT)'') None,
       Call (Execute ''INSERT INTO missing VALUES (1)'') (Some (Exn ''SQL error'')),
       Call CursorExit None, Call ConnectionExit None,
       Log ERROR ''Error executing query from b.sql: SQL error''],
      batch3)"
    by (simp add: eval_defs)
  have m: "Call (Execute ''INSERT INTO missing VALUES (1)'') (Some (Exn ''SQL error''))
     \<in> set [Call (Connect main_params) None, Call Cursor None,
       Log INFO ''Executing query from b.sql'',
       Call (Execute ''CREATE TABLE u (x INT)'') None,
       Call (Execute ''INSERT INTO missing VALUES (1)'') (Some (Exn ''SQL error'')),
       Call CursorExit None, Call ConnectionExit None,
       Log ERROR ''Error executing query from b.sql: SQL error'']"
    by simp
  show ?thesis
    using C9_statement_failure_stops_file [OF a m] scripted_exits unfolding a
    by (simp add: trace_simps failure_entry_def)
qed

text \<open>
  C10. \<open>get_sql_files\<close> sorts the joined paths. For the listing of a directory, whose
  entry names hold no \<open>/\<close>, every joined path is the same prefix followed by the entry
  name, and the result is the same as sorting the entry names first and joining them
  afterwards: the two orders of discovery coincide.
\<close>

theorem C10_sorting_paths_is_sorting_names:
  assumes "listdir env directory w = (Inr names, w1)"
    and "\<forall>name \<in> set names. CHR ''/'' \<notin> set name"
  shows "get_sql_files env directory w =
           (Inr (discovery_by_name directory names), [Call (Listdir directory) None], w1)
         \<and> sort (map (path_join directory) names) = map (path_join directory) (sort names)"
proof -
  have no_slash: "\<forall>name \<in> set names. \<not> startswith name ''/''"
    using assms(2) startswith_slash by blast
  then have "\<forall>name \<in> set (filter (\<lambda>file. endswith file ''.sql'') names). \<not> startswith name ''/''"
    by simp
  then have "sort (map (path_join directory) (filter (\<lambda>file. endswith file ''.sql'') names))
      = discovery_by_name directory names"
    unfolding discovery_by_name_def by (rule sort_map_path_join)
  then have "get_sql_files env directory w =
           (Inr (discovery_by_name directory names), [Call (Listdir directory) None], w1)"
    using assms(1) by (simp add: get_sql_files_def collect_sql_eq)
  moreover have "sort (map (path_join directory) names) = map (path_join directory) (sort names)"
    using no_slash by (rule sort_map_path_join)
  ultimately show ?thesis by simp
qed

text \<open>The directory of the scripted client.\<close>

theorem C10_witness:
  "get_sql_files scripted ''sql_files'' batch3 =
     (Inr [''sql_files/a.sql'', ''sql_files/b.sql'', ''sql_files/c.sql''],
      [Call (Listdir ''sql_files'') None], batch3)
   \<and> discovery_by_name ''sql_files'' (entries batch3) =
       [''sql_files/a.sql'', ''sql_files/b.sql'', ''sql_files/c.sql'']
   \<and> sort (entries batch3) = [''a.sql'', ''b.sql'', ''c.sql'', ''d.SQL'', ''notes.txt'']"
proof -
  have l: "listdir scripted ''sql_files'' batch3 = (Inr (entries batch3), batch3)"
    by (simp add: scripted_def)
  have n: "\<forall>name \<in> set (entries batch3). CHR ''/'' \<notin> set name"
    by (simp add: batch3_def)
  have d: "discovery_by_name ''sql_files'' (entries batch3) =
       [''sql_files/a.sql'', ''sql_files/b.sql'', ''sql_files/c.sql'']"
    by (simp add: discovery_by_name_def batch3_def endswith_def path_join_def startswith_def)
  have s: "sort (entries batch3) = [''a.sql'', ''b.sql'', ''c.sql'', ''d.SQL'', ''notes.txt'']"
    by (simp add: batch3_def)
  show ?thesis
    using C10_sorting_paths_is_sorting_names [OF l n] d s by simp
qed

end
